theory Spec2Isabelle
  imports Complex_Main
begin

section \<open>Data model\<close>

text \<open>
  A move is a pair of Python ints (row, column); \<open>(-1, -1)\<close> is the value the source
  calls \<open>no_move\<close>.
\<close>

type_synonym move = "int \<times> int"

definition no_move :: move where
  "no_move = (-1, -1)"

text \<open>
  The exceptions that the functions of \<open>game_agent.py\<close> can raise: the module's own
  \<open>Timeout\<close>, the \<open>TypeError\<close> of calling \<open>None\<close>, and the \<open>ZeroDivisionError\<close> of a
  float division by zero.
\<close>

datatype error = Timeout | TypeError | ZeroDivisionError

text \<open>
  Scores are Python floats. The search only compares them, and the heuristics only add,
  subtract and divide small numbers; a float is modelled as an exact real number or one of
  the two infinities \<open>float("-inf")\<close> and \<open>float("inf")\<close> (rounding and NaN are left out).
\<close>

datatype pyfloat = NInf | Fin real | PInf

instantiation pyfloat :: linorder
begin

fun less_eq_pyfloat :: "pyfloat \<Rightarrow> pyfloat \<Rightarrow> bool" where
  "less_eq_pyfloat NInf y = True"
| "less_eq_pyfloat (Fin x) NInf = False"
| "less_eq_pyfloat (Fin x) (Fin y) = (x \<le> y)"
| "less_eq_pyfloat (Fin x) PInf = True"
| "less_eq_pyfloat PInf NInf = False"
| "less_eq_pyfloat PInf (Fin y) = False"
| "less_eq_pyfloat PInf PInf = True"

definition less_pyfloat :: "pyfloat \<Rightarrow> pyfloat \<Rightarrow> bool" where
  "less_pyfloat x y = (x \<le> y \<and> \<not> y \<le> x)"

instance
proof
  fix x y z :: pyfloat
  show "(x < y) = (x \<le> y \<and> \<not> y \<le> x)"
    by (simp add: less_pyfloat_def)
  show "x \<le> x"
    by (cases x) simp_all
  show "x \<le> y \<Longrightarrow> y \<le> z \<Longrightarrow> x \<le> z"
    by (cases x; cases y; cases z) simp_all
  show "x \<le> y \<Longrightarrow> y \<le> x \<Longrightarrow> x = y"
    by (cases x; cases y) simp_all
  show "x \<le> y \<or> y \<le> x"
    by (cases x; cases y) auto
qed

end

text \<open>
  The board (\<open>isolation.Board\<close>) is not part of \<open>game_agent.py\<close>; the agent uses it only
  through the calls below, which are taken as a parameter. \<open>'g\<close> is the type of game
  states and \<open>'p\<close> the type of player handles. \<open>get_legal_moves\<close> is the call without an
  argument (the moves of the player to move), \<open>get_legal_moves_of\<close> the call with a
  player.
\<close>

record ('g, 'p) board =
  get_legal_moves :: "'g \<Rightarrow> move list"
  get_legal_moves_of :: "'g \<Rightarrow> 'p \<Rightarrow> move list"
  forecast_move :: "'g \<Rightarrow> move \<Rightarrow> 'g"
  get_blank_spaces :: "'g \<Rightarrow> move list"
  get_player_location :: "'g \<Rightarrow> 'p \<Rightarrow> move"
  get_opponent :: "'g \<Rightarrow> 'p \<Rightarrow> 'p"
  is_loser :: "'g \<Rightarrow> 'p \<Rightarrow> bool"
  is_winner :: "'g \<Rightarrow> 'p \<Rightarrow> bool"
  width :: "'g \<Rightarrow> int"
  height :: "'g \<Rightarrow> int"

section \<open>Evaluation functions\<close>

text \<open>
  \<open>percent_occupation\<close>: \<open>len(blank_spaces) / float(width * height)\<close>; a float division
  by zero raises.
\<close>

definition percent_occupation :: "('g, 'p) board \<Rightarrow> 'g \<Rightarrow> error + real" where
  "percent_occupation B game =
     (let blank_spaces = get_blank_spaces B game
      in if width B game * height B game = 0 then Inl ZeroDivisionError
         else Inr (real (length blank_spaces) / real_of_int (width B game * height B game)))"

definition distance_to_opponent :: "('g, 'p) board \<Rightarrow> 'g \<Rightarrow> 'p \<Rightarrow> int" where
  "distance_to_opponent B game player =
     (case get_player_location B game player of (x0, x1) \<Rightarrow>
      case get_player_location B game (get_opponent B game player) of (y0, y1) \<Rightarrow>
        \<bar>x0 - y0\<bar> + \<bar>x1 - y1\<bar>)"

definition third_heuristic :: "('g, 'p) board \<Rightarrow> 'g \<Rightarrow> 'p \<Rightarrow> error + pyfloat" where
  "third_heuristic B game player =
     (let own_moves = length (get_legal_moves_of B game player);
          opp_moves = length (get_legal_moves_of B game (get_opponent B game player));
          distance = distance_to_opponent B game player
      in case percent_occupation B game of
           Inl e \<Rightarrow> Inl e
         | Inr occupation \<Rightarrow>
             Inr (Fin (real_of_int (int own_moves + distance) - occupation - real opp_moves)))"

definition second_heuristic :: "('g, 'p) board \<Rightarrow> 'g \<Rightarrow> 'p \<Rightarrow> error + pyfloat" where
  "second_heuristic B game player =
     (let own_moves = length (get_legal_moves_of B game player)
      in case percent_occupation B game of
           Inl e \<Rightarrow> Inl e
         | Inr occupation \<Rightarrow>
             if occupation = 0 then Inl ZeroDivisionError
             else Inr (Fin (real own_moves / occupation)))"

definition aggressive_chaser :: "('g, 'p) board \<Rightarrow> 'g \<Rightarrow> 'p \<Rightarrow> int \<Rightarrow> pyfloat" where
  "aggressive_chaser B game player weight_opp =
     (let own_moves = length (get_legal_moves_of B game player);
          opp_moves = length (get_legal_moves_of B game (get_opponent B game player))
      in Fin (real_of_int (int own_moves - weight_opp * int opp_moves)))"

definition custom_score :: "('g, 'p) board \<Rightarrow> 'g \<Rightarrow> 'p \<Rightarrow> error + pyfloat" where
  "custom_score B game player =
     (if is_loser B game player then Inr NInf
      else if is_winner B game player then Inr PInf
      else third_heuristic B game player)"

section \<open>The agent\<close>

text \<open>
  The fields of \<open>CustomPlayer\<close>. \<open>self\<close> is the handle under which the board knows the
  agent: the source passes the object itself (\<open>self.score(game, self)\<close>). The docstring
  asks for a strictly positive \<open>search_depth\<close>, and every depth the source passes on is
  that one, a positive counter or a depth minus one above a test for zero: depths are
  natural numbers. \<open>time_left\<close> is a callable that reads a clock: \<open>time_left k\<close> is
  the value of the call made after \<open>k\<close> earlier calls, and every function that may
  poll takes the number of polls made so far and returns it updated, also when it raises.
\<close>

record ('g, 'p) CustomPlayer =
  search_depth :: nat
  score :: "'g \<Rightarrow> 'p \<Rightarrow> error + pyfloat"
  iterative :: bool
  "method" :: string
  TIMER_THRESHOLD :: real
  self :: 'p

subsection \<open>Depth-limited minimax\<close>

text \<open>
  \<open>dls\<close> with its two \<open>for\<close> loops. A loop takes the moves still to visit, the depth
  \<open>d = depth - 1\<close> of the recursive calls, and the current \<open>bestValue\<close> and \<open>bestMove\<close>.
\<close>

function dls :: "('g, 'p) board \<Rightarrow> ('g, 'p) CustomPlayer \<Rightarrow> 'g \<Rightarrow> nat \<Rightarrow> bool
    \<Rightarrow> error + (pyfloat \<times> move)"
  and dls_max_loop :: "('g, 'p) board \<Rightarrow> ('g, 'p) CustomPlayer \<Rightarrow> 'g \<Rightarrow> nat \<Rightarrow> move list
    \<Rightarrow> pyfloat \<Rightarrow> move \<Rightarrow> error + (pyfloat \<times> move)"
  and dls_min_loop :: "('g, 'p) board \<Rightarrow> ('g, 'p) CustomPlayer \<Rightarrow> 'g \<Rightarrow> nat \<Rightarrow> move list
    \<Rightarrow> pyfloat \<Rightarrow> move \<Rightarrow> error + (pyfloat \<times> move)"
where
  "dls B P game depth maximizing_player =
     (let legal_moves = get_legal_moves B game
      in if depth = 0 then
           (case score P game (self P) of
              Inl e \<Rightarrow> Inl e
            | Inr s \<Rightarrow> Inr (s, no_move))
         else if maximizing_player then
           dls_max_loop B P game (depth - 1) legal_moves NInf no_move
         else
           dls_min_loop B P game (depth - 1) legal_moves PInf no_move)"
| "dls_max_loop B P game d [] bestValue bestMove = Inr (bestValue, bestMove)"
| "dls_max_loop B P game d (child # rest) bestValue bestMove =
     (case dls B P (forecast_move B game child) d False of
        Inl e \<Rightarrow> Inl e
      | Inr (v, mv) \<Rightarrow>
          if v > bestValue then dls_max_loop B P game d rest v child
          else dls_max_loop B P game d rest bestValue bestMove)"
| "dls_min_loop B P game d [] bestValue bestMove = Inr (bestValue, bestMove)"
| "dls_min_loop B P game d (child # rest) bestValue bestMove =
     (case dls B P (forecast_move B game child) d True of
        Inl e \<Rightarrow> Inl e
      | Inr (v, mv) \<Rightarrow>
          if v < bestValue then dls_min_loop B P game d rest v child
          else dls_min_loop B P game d rest bestValue bestMove)"
  by pat_completeness auto
termination
  by (relation "measures [\<lambda>x. case x of
        Inl (B, P, g, depth, mp) \<Rightarrow> 2 * depth
      | Inr (Inl (B, P, g, d, ms, bv, bm)) \<Rightarrow> 2 * d + 1
      | Inr (Inr (B, P, g, d, ms, bv, bm)) \<Rightarrow> 2 * d + 1,
      \<lambda>x. case x of
        Inl (B, P, g, depth, mp) \<Rightarrow> 0
      | Inr (Inl (B, P, g, d, ms, bv, bm)) \<Rightarrow> length ms
      | Inr (Inr (B, P, g, d, ms, bv, bm)) \<Rightarrow> length ms]") auto

text \<open>\<open>minimax\<close> polls the clock once and hands over to \<open>dls\<close>.\<close>

definition minimax :: "('g, 'p) board \<Rightarrow> ('g, 'p) CustomPlayer \<Rightarrow> (nat \<Rightarrow> real) \<Rightarrow> 'g \<Rightarrow> nat
    \<Rightarrow> bool \<Rightarrow> nat \<Rightarrow> (error + (pyfloat \<times> move)) \<times> nat" where
  "minimax B P time_left game depth maximizing_player c =
     (if time_left c < TIMER_THRESHOLD P then (Inl Timeout, Suc c)
      else (dls B P game depth maximizing_player, Suc c))"

subsection \<open>Alpha-beta\<close>

text \<open>
  \<open>alphabeta\<close> with its two loops; a loop also carries \<open>alpha\<close> and \<open>beta\<close>, which it
  updates, and \<open>break\<close> is the return of the current best pair.
\<close>

function alphabeta :: "('g, 'p) board \<Rightarrow> ('g, 'p) CustomPlayer \<Rightarrow> (nat \<Rightarrow> real) \<Rightarrow> 'g \<Rightarrow> nat
    \<Rightarrow> pyfloat \<Rightarrow> pyfloat \<Rightarrow> bool \<Rightarrow> nat \<Rightarrow> (error + (pyfloat \<times> move)) \<times> nat"
  and ab_max_loop :: "('g, 'p) board \<Rightarrow> ('g, 'p) CustomPlayer \<Rightarrow> (nat \<Rightarrow> real) \<Rightarrow> 'g \<Rightarrow> nat
    \<Rightarrow> move list \<Rightarrow> pyfloat \<Rightarrow> pyfloat \<Rightarrow> pyfloat \<Rightarrow> move \<Rightarrow> nat
    \<Rightarrow> (error + (pyfloat \<times> move)) \<times> nat"
  and ab_min_loop :: "('g, 'p) board \<Rightarrow> ('g, 'p) CustomPlayer \<Rightarrow> (nat \<Rightarrow> real) \<Rightarrow> 'g \<Rightarrow> nat
    \<Rightarrow> move list \<Rightarrow> pyfloat \<Rightarrow> pyfloat \<Rightarrow> pyfloat \<Rightarrow> move \<Rightarrow> nat
    \<Rightarrow> (error + (pyfloat \<times> move)) \<times> nat"
where
  "alphabeta B P time_left game depth alpha beta maximizing_player c =
     (if time_left c < TIMER_THRESHOLD P then (Inl Timeout, Suc c)
      else
        let legal_moves = get_legal_moves B game
        in if depth = 0 \<or> length legal_moves = 0 then
             (case score P game (self P) of
                Inl e \<Rightarrow> (Inl e, Suc c)
              | Inr s \<Rightarrow> (Inr (s, no_move), Suc c))
           else if maximizing_player then
             ab_max_loop B P time_left game (depth - 1) legal_moves alpha beta NInf no_move (Suc c)
           else
             ab_min_loop B P time_left game (depth - 1) legal_moves alpha beta PInf no_move (Suc c))"
| "ab_max_loop B P time_left game d [] alpha beta bestValue bestMove c =
     (Inr (bestValue, bestMove), c)"
| "ab_max_loop B P time_left game d (child # rest) alpha beta bestValue bestMove c =
     (case alphabeta B P time_left (forecast_move B game child) d alpha beta False c of
        (Inl e, c') \<Rightarrow> (Inl e, c')
      | (Inr (v, mv), c') \<Rightarrow>
          let bestValue' = (if v > bestValue then v else bestValue);
              bestMove' = (if v > bestValue then child else bestMove);
              alpha' = max alpha bestValue'
          in if beta \<le> alpha' then (Inr (bestValue', bestMove'), c')
             else ab_max_loop B P time_left game d rest alpha' beta bestValue' bestMove' c')"
| "ab_min_loop B P time_left game d [] alpha beta bestValue bestMove c =
     (Inr (bestValue, bestMove), c)"
| "ab_min_loop B P time_left game d (child # rest) alpha beta bestValue bestMove c =
     (case alphabeta B P time_left (forecast_move B game child) d alpha beta True c of
        (Inl e, c') \<Rightarrow> (Inl e, c')
      | (Inr (v, mv), c') \<Rightarrow>
          let bestValue' = (if v < bestValue then v else bestValue);
              bestMove' = (if v < bestValue then mv else bestMove);
              beta' = min beta bestValue'
          in if beta' \<le> alpha then (Inr (bestValue', bestMove'), c')
             else ab_min_loop B P time_left game d rest alpha beta' bestValue' bestMove' c')"
  by pat_completeness auto
termination
  by (relation "measures [\<lambda>x. case x of
        Inl (B, P, t, g, depth, a, b, mp, c) \<Rightarrow> 2 * depth
      | Inr (Inl (B, P, t, g, d, ms, a, b, bv, bm, c)) \<Rightarrow> 2 * d + 1
      | Inr (Inr (B, P, t, g, d, ms, a, b, bv, bm, c)) \<Rightarrow> 2 * d + 1,
      \<lambda>x. case x of
        Inl (B, P, t, g, depth, a, b, mp, c) \<Rightarrow> 0
      | Inr (Inl (B, P, t, g, d, ms, a, b, bv, bm, c)) \<Rightarrow> length ms
      | Inr (Inr (B, P, t, g, d, ms, a, b, bv, bm, c)) \<Rightarrow> length ms]") auto

subsection \<open>Move selection\<close>

text \<open>
  \<open>search\<close> in \<open>get_move\<close> is \<open>None\<close>, \<open>self.minimax\<close> or \<open>self.alphabeta\<close>, and is always
  called as \<open>search(game, depth, True)\<close>. For \<open>minimax\<close> the third argument is
  \<open>maximizing_player\<close>. For \<open>alphabeta\<close> the third positional argument is \<open>alpha\<close>: the
  call binds \<open>alpha = True\<close>, which Python compares as the number 1, and leaves \<open>beta\<close> and
  \<open>maximizing_player\<close> at their defaults. Calling \<open>None\<close> raises \<open>TypeError\<close>.
\<close>

type_synonym 'g search = "'g \<Rightarrow> nat \<Rightarrow> nat \<Rightarrow> (error + (pyfloat \<times> move)) \<times> nat"

definition select_search :: "('g, 'p) board \<Rightarrow> ('g, 'p) CustomPlayer \<Rightarrow> (nat \<Rightarrow> real)
    \<Rightarrow> 'g search option" where
  "select_search B P time_left =
     (if method P = ''minimax'' then
        Some (\<lambda>game depth c. minimax B P time_left game depth True c)
      else if method P = ''alphabeta'' then
        Some (\<lambda>game depth c. alphabeta B P time_left game depth (Fin 1) PInf True c)
      else None)"

definition call_search :: "'g search option \<Rightarrow> 'g search" where
  "call_search search game depth c =
     (case search of
        None \<Rightarrow> (Inl TypeError, c)
      | Some f \<Rightarrow> f game depth c)"

text \<open>
  The loop \<open>for i in itertools.count()\<close> inside the \<open>try\<close>: it ends only by an
  exception. \<open>Timeout\<close> is caught and the current \<open>move\<close> returned (\<open>None\<close> is Python's
  \<open>None\<close>, the initial value of \<open>move\<close>); any other exception leaves \<open>get_move\<close>.
\<close>

partial_function (option) iterative_deepening :: "'g search option \<Rightarrow> 'g \<Rightarrow> nat
    \<Rightarrow> move option \<Rightarrow> nat \<Rightarrow> ((error + move option) \<times> nat) option" where
  "iterative_deepening search game i move c =
     (case call_search search game (i + 1) c of
        (Inl e, c') \<Rightarrow> (if e = Timeout then Some (Inr move, c') else Some (Inl e, c'))
      | (Inr (v, m), c') \<Rightarrow> iterative_deepening search game (i + 1) (Some m) c')"

text \<open>
  \<open>int(x / 2)\<close> on a Python int: true division, then truncation towards zero. The
  division is in double precision, which is exact for every \<open>x\<close> below \<open>2 ^ 53\<close> in absolute
  value, as the width and the height of a board are; it is modelled as exact.
\<close>

definition int_half :: "int \<Rightarrow> int" where
  "int_half x = (if 0 \<le> x then x div 2 else - ((- x) div 2))"

definition get_move :: "('g, 'p) board \<Rightarrow> ('g, 'p) CustomPlayer \<Rightarrow> 'g \<Rightarrow> move list
    \<Rightarrow> (nat \<Rightarrow> real) \<Rightarrow> nat \<Rightarrow> ((error + move option) \<times> nat) option" where
  "get_move B P game legal_moves time_left c =
     (if legal_moves = [] then Some (Inr (Some (-1, -1)), c)
      else
        let search = select_search B P time_left
        in if int (length (get_legal_moves B game)) = width B game * height B game then
             Some (Inr (Some (int_half (width B game), int_half (height B game))), c)
           else if iterative P then iterative_deepening search game 0 None c
           else
             (case call_search search game (search_depth P) c of
                (Inl e, c') \<Rightarrow> (if e = Timeout then Some (Inr None, c') else Some (Inl e, c'))
              | (Inr (v, m), c') \<Rightarrow> Some (Inr (Some m), c')))"

section \<open>The formulas as the specification words them\<close>

text \<open>
  The specification's occupancy fraction: occupied cells divided by total cells, the
  occupied cells being those that are not blank.
\<close>

definition occupancy_fraction_spec :: "('g, 'p) board \<Rightarrow> 'g \<Rightarrow> real" where
  "occupancy_fraction_spec B game =
     (real_of_int (width B game * height B game) - real (length (get_blank_spaces B game)))
       / real_of_int (width B game * height B game)"

text \<open>
  The specification's default blend: own legal-move count, plus the taxicab distance
  between the players, minus the occupancy fraction, minus the opponent's legal-move count.
\<close>

definition third_heuristic_spec :: "('g, 'p) board \<Rightarrow> 'g \<Rightarrow> 'p \<Rightarrow> real" where
  "third_heuristic_spec B game player =
     real (length (get_legal_moves_of B game player))
       + real_of_int (distance_to_opponent B game player)
       - occupancy_fraction_spec B game
       - real (length (get_legal_moves_of B game (get_opponent B game player)))"

text \<open>
  The specification's mobility ratio: own legal-move count divided by the occupancy
  fraction.
\<close>

definition second_heuristic_spec :: "('g, 'p) board \<Rightarrow> 'g \<Rightarrow> 'p \<Rightarrow> real" where
  "second_heuristic_spec B game player =
     real (length (get_legal_moves_of B game player)) / occupancy_fraction_spec B game"

text \<open>
  Modelled from the spec: \<open>Board.is_loser\<close> and \<open>Board.is_winner\<close>, which \<open>custom_score\<close>
  calls, are not part of \<open>game_agent.py\<close>. By the specification a player loses when no
  legal move remains: the designated player has lost when that player has no legal moves,
  and has won when the opponent has none. A board answers the two queries for a state and
  a player as specified when \<open>is_loser\<close> and \<open>is_winner\<close> say exactly that.
\<close>

definition queries_as_specified :: "('g, 'p) board \<Rightarrow> 'g \<Rightarrow> 'p \<Rightarrow> bool" where
  "queries_as_specified B game player =
     (is_loser B game player = (get_legal_moves_of B game player = []) \<and>
      is_winner B game player
        = (get_legal_moves_of B game (get_opponent B game player) = []))"

text \<open>
  The centre cell as a move. The docstring of \<open>get_move\<close> encodes a move as (row, col);
  the rows count the height of the board and the columns its width.
\<close>

definition centre_cell_spec :: "('g, 'p) board \<Rightarrow> 'g \<Rightarrow> move" where
  "centre_cell_spec B game = (height B game div 2, width B game div 2)"

section \<open>Concrete boards\<close>

text \<open>
  A 3 by 3 board with the agent (player \<open>True\<close>) in the corner (0, 0), to move, and the
  opponent in the corner (2, 2); the other seven cells are blank and each player has two
  knight moves.
\<close>

definition corner_board :: "(unit, bool) board" where
  "corner_board =
     \<lparr> get_legal_moves = (\<lambda>g. [(1, 2), (2, 1)]),
       get_legal_moves_of = (\<lambda>g p. if p then [(1, 2), (2, 1)] else [(0, 1), (1, 0)]),
       forecast_move = (\<lambda>g m. g),
       get_blank_spaces = (\<lambda>g. [(0, 1), (0, 2), (1, 0), (1, 1), (1, 2), (2, 0), (2, 1)]),
       get_player_location = (\<lambda>g p. if p then (0, 0) else (2, 2)),
       get_opponent = (\<lambda>g p. \<not> p),
       is_loser = (\<lambda>g p. False),
       is_winner = (\<lambda>g p. False),
       width = (\<lambda>g. 3),
       height = (\<lambda>g. 3) \<rparr>"

text \<open>
  A board whose player to move, \<open>True\<close>, has no legal move, and whose size is reported as
  0 by 0, so that the heuristic would raise if it were evaluated.
\<close>

definition stuck_board :: "(unit, bool) board" where
  "stuck_board =
     \<lparr> get_legal_moves = (\<lambda>g. []),
       get_legal_moves_of = (\<lambda>g p. if p then [] else [(0, 1)]),
       forecast_move = (\<lambda>g m. g),
       get_blank_spaces = (\<lambda>g. []),
       get_player_location = (\<lambda>g p. if p then (0, 0) else (2, 2)),
       get_opponent = (\<lambda>g p. \<not> p),
       is_loser = (\<lambda>g p. p),
       is_winner = (\<lambda>g p. \<not> p),
       width = (\<lambda>g. 0),
       height = (\<lambda>g. 0) \<rparr>"

text \<open>
  Game trees as boards: a state is a node with a label and one subtree for each legal
  move; the board is reported as 7 by 7.
\<close>

datatype gtree = GNode (label: real) (branches: "(move \<times> gtree) list")

definition tree_board :: "(gtree, bool) board" where
  "tree_board =
     \<lparr> get_legal_moves = (\<lambda>g. map fst (branches g)),
       get_legal_moves_of = (\<lambda>g p. map fst (branches g)),
       forecast_move = (\<lambda>g m. case map_of (branches g) m of Some t \<Rightarrow> t | None \<Rightarrow> g),
       get_blank_spaces = (\<lambda>g. []),
       get_player_location = (\<lambda>g p. (0, 0)),
       get_opponent = (\<lambda>g p. \<not> p),
       is_loser = (\<lambda>g p. False),
       is_winner = (\<lambda>g p. False),
       width = (\<lambda>g. 7),
       height = (\<lambda>g. 7) \<rparr>"

text \<open>An agent whose evaluation function returns the label of the node.\<close>

definition label_player :: "string \<Rightarrow> bool \<Rightarrow> (gtree, bool) CustomPlayer" where
  "label_player m it =
     \<lparr> search_depth = 2,
       score = (\<lambda>g p. Inr (Fin (label g))),
       iterative = it,
       method = m,
       TIMER_THRESHOLD = 10,
       self = True \<rparr>"

text \<open>
  A root with the single move (0, 0) to a state in which the other side has no move, and
  a root with the two moves (0, 0) and (0, 1), each answered by one move.
\<close>

definition dead_end :: gtree where
  "dead_end = GNode 0 [((0, 0), GNode 5 [])]"

definition two_ply :: gtree where
  "two_ply =
     GNode 0 [((0, 0), GNode 1 [((2, 2), GNode 3 [])]),
              ((0, 1), GNode 2 [((3, 3), GNode 4 [])])]"

text \<open>
  The position before the first move: every one of the 49 cells of the 7 by 7 board is a
  legal move.
\<close>

definition fresh_game :: gtree where
  "fresh_game =
     GNode 0 (map (\<lambda>m. (m, GNode 0 [])) (List.product (map int [0..<7]) (map int [0..<7])))"

text \<open>
  A 3 by 3 board on which the player to move, \<open>True\<close>, stands in the corner (0, 0) and
  has no legal move (both knight moves lead to cells that are taken), so that the other
  player, \<open>False\<close>, has won.
\<close>

definition won_board :: "(unit, bool) board" where
  "won_board =
     \<lparr> get_legal_moves = (\<lambda>g. []),
       get_legal_moves_of = (\<lambda>g p. if p then [] else [(0, 2)]),
       forecast_move = (\<lambda>g m. g),
       get_blank_spaces = (\<lambda>g. [(0, 1), (0, 2), (1, 0), (1, 1), (2, 0), (2, 2)]),
       get_player_location = (\<lambda>g p. if p then (0, 0) else (2, 1)),
       get_opponent = (\<lambda>g p. \<not> p),
       is_loser = (\<lambda>g p. p),
       is_winner = (\<lambda>g p. \<not> p),
       width = (\<lambda>g. 3),
       height = (\<lambda>g. 3) \<rparr>"

text \<open>An agent with the default configuration of \<open>CustomPlayer\<close>, known to the board as \<open>p\<close>.\<close>

definition default_player :: "('g, bool) board \<Rightarrow> bool \<Rightarrow> ('g, bool) CustomPlayer" where
  "default_player B p =
     \<lparr> search_depth = 3,
       score = custom_score B,
       iterative = True,
       method = ''minimax'',
       TIMER_THRESHOLD = 10,
       self = p \<rparr>"

text \<open>
  A 3 by 3 board on which neither player has a legal move: \<open>True\<close>, to move, stands in
  the corner (0, 0), \<open>False\<close> in the corner (2, 2), and the four cells a knight move away
  from them are taken.
\<close>

definition blocked_board :: "(unit, bool) board" where
  "blocked_board =
     \<lparr> get_legal_moves = (\<lambda>g. []),
       get_legal_moves_of = (\<lambda>g p. []),
       forecast_move = (\<lambda>g m. g),
       get_blank_spaces = (\<lambda>g. [(0, 2), (1, 1), (2, 0)]),
       get_player_location = (\<lambda>g p. if p then (0, 0) else (2, 2)),
       get_opponent = (\<lambda>g p. \<not> p),
       is_loser = (\<lambda>g p. True),
       is_winner = (\<lambda>g p. True),
       width = (\<lambda>g. 3),
       height = (\<lambda>g. 3) \<rparr>"

text \<open>
  The position before the first move on a board 9 cells wide and 3 cells high: its 27
  cells, rows 0 to 2 and columns 0 to 8, are the legal moves.
\<close>

definition wide_board :: "(gtree, bool) board" where
  "wide_board = tree_board\<lparr>width := (\<lambda>g. 9), height := (\<lambda>g. 3)\<rparr>"

definition wide_fresh_game :: gtree where
  "wide_fresh_game =
     GNode 0 (map (\<lambda>m. (m, GNode 0 [])) (List.product (map int [0..<3]) (map int [0..<9])))"

text \<open>
  Clocks: one that always reads the same value, and one that reads the values of a list in
  turn and 0 after them.
\<close>

definition constant_clock :: "real \<Rightarrow> nat \<Rightarrow> real" where
  "constant_clock t k = t"

definition clock_readings :: "real list \<Rightarrow> nat \<Rightarrow> real" where
  "clock_readings rs k = (if k < length rs then rs ! k else 0)"

section \<open>Minimax values\<close>

text \<open>
  The score of a state as a total function (the value is irrelevant where the evaluation
  function raises), and the minimax value of a state at a depth: the value that \<open>dls\<close>
  returns when no evaluation raises.
\<close>

definition score_value :: "('g, 'p) CustomPlayer \<Rightarrow> 'g \<Rightarrow> pyfloat" where
  "score_value P game = (case score P game (self P) of Inl e \<Rightarrow> NInf | Inr s \<Rightarrow> s)"

fun minimax_value :: "('g, 'p) board \<Rightarrow> ('g, 'p) CustomPlayer \<Rightarrow> 'g \<Rightarrow> nat \<Rightarrow> bool \<Rightarrow> pyfloat" where
  "minimax_value B P game 0 mp = score_value P game"
| "minimax_value B P game (Suc d) mp =
     (if mp then
        fold (\<lambda>child best. max best (minimax_value B P (forecast_move B game child) d False))
          (get_legal_moves B game) NInf
      else
        fold (\<lambda>child best. min best (minimax_value B P (forecast_move B game child) d True))
          (get_legal_moves B game) PInf)"

text \<open>
  Every state without a legal move that lies fewer than \<open>depth\<close> plies below \<open>game\<close> is
  scored as lost for the side to move: minus infinity on a maximizing layer, plus infinity
  on a minimizing layer.
\<close>

fun dead_scored_lost :: "('g, 'p) board \<Rightarrow> ('g, 'p) CustomPlayer \<Rightarrow> 'g \<Rightarrow> nat \<Rightarrow> bool \<Rightarrow> bool" where
  "dead_scored_lost B P game 0 mp = True"
| "dead_scored_lost B P game (Suc d) mp =
     (if get_legal_moves B game = [] then
        score P game (self P) = Inr (if mp then NInf else PInf)
      else
        list_all (\<lambda>child. dead_scored_lost B P (forecast_move B game child) d (\<not> mp))
          (get_legal_moves B game))"

text \<open>
  A result \<open>r\<close> of a search with window \<open>(a, b)\<close> is sound for the true value \<open>v\<close>:
  exact inside the window, an upper bound of \<open>v\<close> at or below \<open>a\<close>, a lower bound at or
  above \<open>b\<close>.
\<close>

definition window_sound :: "pyfloat \<Rightarrow> pyfloat \<Rightarrow> pyfloat \<Rightarrow> pyfloat \<Rightarrow> bool" where
  "window_sound a b v r = ((r \<le> a \<longrightarrow> v \<le> r) \<and> (a < r \<and> r < b \<longrightarrow> r = v) \<and> (b \<le> r \<longrightarrow> r \<le> v))"

text \<open>
  The defining equations of \<open>dls\<close> and \<open>alphabeta\<close> rewrite a call into its body, which
  contains further calls; they are applied by hand.
\<close>

declare alphabeta.simps(1) [simp del] dls.simps(1) [simp del]

section \<open>Facts about the order of floats\<close>

lemma pyfloat_order_simps [simp]:
  "NInf < Fin x" "NInf < PInf" "Fin x < PInf" "(Fin x < Fin y) = (x < y)"
  "\<not> z < NInf" "\<not> PInf < z" "NInf \<le> z" "z \<le> PInf"
  "(PInf \<le> z) = (z = PInf)" "(z \<le> NInf) = (z = NInf)"
  by (cases z; auto simp: less_pyfloat_def)+

section \<open>The evaluation function\<close>

text \<open>
  Claim C7, as the code has it. On a board that answers \<open>is_loser\<close> and \<open>is_winner\<close> as
  specified: if the designated player has no legal moves, \<open>custom_score\<close> returns minus
  infinity; if the opponent has no legal moves and the designated player has some, it
  returns plus infinity. Nothing about the heuristic enters: the results hold for every
  such board, also one on which \<open>third_heuristic\<close> raises.
\<close>

theorem custom_score_terminal:
  assumes "queries_as_specified B game player"
  shows "(get_legal_moves_of B game player = [] \<longrightarrow> custom_score B game player = Inr NInf) \<and>
    (get_legal_moves_of B game player \<noteq> [] \<and>
     get_legal_moves_of B game (get_opponent B game player) = [] \<longrightarrow>
       custom_score B game player = Inr PInf)"
  using assms by (simp add: custom_score_def queries_as_specified_def)

theorem custom_score_terminal_witness:
  "queries_as_specified stuck_board () True \<and>
   get_legal_moves_of stuck_board () True = [] \<and>
   custom_score stuck_board () True = Inr NInf \<and>
   third_heuristic stuck_board () True = Inl ZeroDivisionError \<and>
   queries_as_specified stuck_board () False \<and>
   get_legal_moves_of stuck_board () False \<noteq> [] \<and>
   get_legal_moves_of stuck_board () (get_opponent stuck_board () False) = [] \<and>
   custom_score stuck_board () False = Inr PInf \<and>
   third_heuristic stuck_board () False = Inl ZeroDivisionError"
proof -
  have q: "queries_as_specified stuck_board () True" "queries_as_specified stuck_board () False"
    by (simp_all add: queries_as_specified_def stuck_board_def)
  have m: "get_legal_moves_of stuck_board () True = []"
    "get_legal_moves_of stuck_board () False \<noteq> []"
    "get_legal_moves_of stuck_board () (get_opponent stuck_board () False) = []"
    by (simp_all add: stuck_board_def)
  have h: "third_heuristic stuck_board () True = Inl ZeroDivisionError"
    "third_heuristic stuck_board () False = Inl ZeroDivisionError"
    by (simp_all add: third_heuristic_def percent_occupation_def stuck_board_def)
  show ?thesis
    using q m h custom_score_terminal [OF q(1)] custom_score_terminal [OF q(2)]
    by simp
qed

text \<open>
  Claim C7 as stated fails where neither player has a legal move: the opponent has none,
  and \<open>custom_score\<close> returns minus infinity, because the test for the designated player's
  loss comes first.
\<close>

theorem custom_score_both_without_moves:
  "queries_as_specified blocked_board () True \<and>
   get_legal_moves_of blocked_board () True = [] \<and>
   get_legal_moves_of blocked_board () (get_opponent blocked_board () True) = [] \<and>
   custom_score blocked_board () True = Inr NInf"
  by (simp add: queries_as_specified_def custom_score_def blocked_board_def)

text \<open>
  Claim C2. On the 3 by 3 board with the players in opposite corners, nobody has lost or
  won, so \<open>custom_score\<close> is \<open>third_heuristic\<close>: it returns 2 + 4 - 7/9 - 2, subtracting
  the fraction of blank cells, where the specification's formula subtracts the fraction of
  occupied cells and gives 2 + 4 - 2/9 - 2.
\<close>

theorem third_heuristic_subtracts_blank_fraction:
  "custom_score corner_board () True = Inr (Fin (29 / 9)) \<and>
   third_heuristic corner_board () True = Inr (Fin (29 / 9)) \<and>
   percent_occupation corner_board () = Inr (7 / 9) \<and>
   occupancy_fraction_spec corner_board () = 2 / 9 \<and>
   third_heuristic_spec corner_board () True = 34 / 9"
  by (simp add: custom_score_def third_heuristic_def third_heuristic_spec_def
      occupancy_fraction_spec_def percent_occupation_def distance_to_opponent_def
      corner_board_def)

text \<open>
  Claim C8. On the same board \<open>second_heuristic\<close> returns 2 / (7/9), dividing by the
  fraction of blank cells, where the specification's formula divides by the fraction of
  occupied cells and gives 2 / (2/9).
\<close>

theorem second_heuristic_divides_by_blank_fraction:
  "second_heuristic corner_board () True = Inr (Fin (18 / 7)) \<and>
   second_heuristic_spec corner_board () True = 9"
  by (simp add: second_heuristic_def second_heuristic_spec_def occupancy_fraction_spec_def
      percent_occupation_def corner_board_def)

section \<open>Move selection: shortcuts and dispatch\<close>

text \<open>
  Claim C9. At the opening position of the board 9 wide and 3 high, \<open>get_move\<close> returns
  \<open>(int(width/2), int(height/2))\<close>, the pair (4, 1): as a move (row, col) it names row 4,
  which the board does not have, and it is not among the legal moves, whereas the centre
  cell is (1, 4). On the 7 by 7 board the two coincide and \<open>get_move\<close> returns (3, 3); for
  an empty list of supplied moves it returns (-1, -1). In each case the clock is not polled.
\<close>

theorem opening_move_swaps_row_and_column:
  "length (get_legal_moves wide_board wide_fresh_game) = 27 \<and>
   int (length (get_legal_moves wide_board wide_fresh_game))
     = width wide_board wide_fresh_game * height wide_board wide_fresh_game \<and>
   get_move wide_board (label_player ''minimax'' True) wide_fresh_game
     (get_legal_moves wide_board wide_fresh_game) (constant_clock 100) 0
     = Some (Inr (Some (4, 1)), 0) \<and>
   (4, 1) \<notin> set (get_legal_moves wide_board wide_fresh_game) \<and>
   centre_cell_spec wide_board wide_fresh_game = (1, 4) \<and>
   (1, 4) \<in> set (get_legal_moves wide_board wide_fresh_game) \<and>
   length (get_legal_moves tree_board fresh_game) = 49 \<and>
   get_move tree_board (label_player ''minimax'' True) fresh_game
     (get_legal_moves tree_board fresh_game) (constant_clock 100) 0
     = Some (Inr (Some (3, 3)), 0) \<and>
   centre_cell_spec tree_board fresh_game = (3, 3) \<and>
   get_move tree_board (label_player ''minimax'' True) fresh_game [] (constant_clock 100) 0
     = Some (Inr (Some (-1, -1)), 0)"
proof -
  have moves: "get_legal_moves wide_board wide_fresh_game
      = List.product (map int [0..<3]) (map int [0..<9])"
    by (simp add: wide_board_def tree_board_def wide_fresh_game_def comp_def)
  have n: "length (get_legal_moves wide_board wide_fresh_game) = 27"
    unfolding moves by simp
  then have ne: "get_legal_moves wide_board wide_fresh_game \<noteq> []"
    by auto
  have w: "width wide_board wide_fresh_game = 9" "height wide_board wide_fresh_game = 3"
    by (simp_all add: wide_board_def)
  have g: "get_move wide_board (label_player ''minimax'' True) wide_fresh_game
     (get_legal_moves wide_board wide_fresh_game) (constant_clock 100) 0
     = Some (Inr (Some (4, 1)), 0)"
    using ne n w by (simp add: get_move_def int_half_def)
  have out: "(4, 1) \<notin> set (get_legal_moves wide_board wide_fresh_game)"
    unfolding moves by auto
  have inn: "(1, 4) \<in> set (get_legal_moves wide_board wide_fresh_game)"
    unfolding moves by (simp add: image_iff)
  have c: "centre_cell_spec wide_board wide_fresh_game = (1, 4)"
    by (simp add: centre_cell_spec_def w)
  have n7: "length (get_legal_moves tree_board fresh_game) = 49"
    by (simp add: tree_board_def fresh_game_def)
  then have ne7: "get_legal_moves tree_board fresh_game \<noteq> []"
    by auto
  have w7: "width tree_board fresh_game = 7" "height tree_board fresh_game = 7"
    by (simp_all add: tree_board_def)
  have g7: "get_move tree_board (label_player ''minimax'' True) fresh_game
     (get_legal_moves tree_board fresh_game) (constant_clock 100) 0
     = Some (Inr (Some (3, 3)), 0)"
    using ne7 n7 w7 by (simp add: get_move_def int_half_def)
  have c7: "centre_cell_spec tree_board fresh_game = (3, 3)"
    by (simp add: centre_cell_spec_def w7)
  have e: "get_move tree_board (label_player ''minimax'' True) fresh_game [] (constant_clock 100) 0
     = Some (Inr (Some (-1, -1)), 0)"
    by (simp add: get_move_def)
  from n w g out inn c n7 g7 c7 e show ?thesis by simp
qed

text \<open>
  Claim C10. With a method other than \<open>'minimax'\<close> and \<open>'alphabeta'\<close>, a non-empty list
  of supplied moves and a position that is not the opening one, \<open>get_move\<close> raises
  \<open>TypeError\<close> (it calls \<open>None\<close>), before any poll of the clock, with and without
  iterative deepening.
\<close>

theorem unrecognised_method_raises:
  assumes "method P \<noteq> ''minimax''" and "method P \<noteq> ''alphabeta''"
    and "legal_moves \<noteq> []"
    and "int (length (get_legal_moves B game)) \<noteq> width B game * height B game"
  shows "get_move B P game legal_moves time_left c = Some (Inl TypeError, c)"
proof (cases "iterative P")
  case True
  have "iterative_deepening None game 0 None c = Some (Inl TypeError, c)"
    by (subst iterative_deepening.simps) (simp add: call_search_def)
  with True assms show ?thesis
    by (simp add: get_move_def select_search_def)
next
  case False
  with assms show ?thesis
    by (simp add: get_move_def select_search_def call_search_def)
qed

theorem unrecognised_method_raises_witness:
  "get_move tree_board (label_player ''negamax'' True) two_ply [(0, 0), (0, 1)]
     (constant_clock 100) 0 = Some (Inl TypeError, 0) \<and>
   get_move tree_board (label_player ''negamax'' False) two_ply [(0, 0), (0, 1)]
     (constant_clock 100) 0 = Some (Inl TypeError, 0)"
  using unrecognised_method_raises [of "label_player ''negamax'' True" "[(0, 0), (0, 1)]"
      tree_board two_ply "constant_clock 100" 0]
    unrecognised_method_raises [of "label_player ''negamax'' False" "[(0, 0), (0, 1)]"
      tree_board two_ply "constant_clock 100" 0]
  by (simp add: label_player_def tree_board_def two_ply_def)

section \<open>Timeout before the first depth completes\<close>

lemma iterative_first_timeout:
  "call_search search game 1 c = (Inl Timeout, c') \<Longrightarrow>
   iterative_deepening search game 0 None c = Some (Inr None, c')"
  by (subst iterative_deepening.simps) simp

text \<open>
  Claim C5. On a position with two legal moves and a clock that reads 5 ms against a
  threshold of 10 ms, the first poll raises \<open>Timeout\<close>; \<open>get_move\<close> catches it and returns
  the initial value of \<open>move\<close>, which is \<open>None\<close> and not (-1, -1), for either method, with
  and without iterative deepening.
\<close>

theorem timeout_at_first_depth_returns_None:
  "get_move tree_board (label_player ''minimax'' True) two_ply [(0, 0), (0, 1)]
     (constant_clock 5) 0 = Some (Inr None, 1) \<and>
   get_move tree_board (label_player ''alphabeta'' True) two_ply [(0, 0), (0, 1)]
     (constant_clock 5) 0 = Some (Inr None, 1) \<and>
   get_move tree_board (label_player ''minimax'' False) two_ply [(0, 0), (0, 1)]
     (constant_clock 5) 0 = Some (Inr None, 1) \<and>
   get_move tree_board (label_player ''alphabeta'' False) two_ply [(0, 0), (0, 1)]
     (constant_clock 5) 0 = Some (Inr None, 1)"
  by (simp add: get_move_def iterative_first_timeout select_search_def call_search_def
      minimax_def alphabeta.simps(1) constant_clock_def label_player_def tree_board_def
      two_ply_def)

section \<open>The move of a minimizing alpha-beta node\<close>

text \<open>
  Claim C4. On the two-ply tree, whose root has the legal moves (0, 0) and (0, 1), the
  minimizing layer of \<open>alphabeta\<close> at depth 2 returns the move (2, 2), the reply found below
  its first child, and at depth 1 the move (-1, -1), although the child improved on the
  initial best value. The maximizing layer returns the root move (0, 1), and the minimizing
  layer of \<open>dls\<close> the root move (0, 0).
\<close>

theorem min_layer_returns_move_of_child_search:
  "alphabeta tree_board (label_player ''alphabeta'' True) (constant_clock 100) two_ply 2
     NInf PInf False 0 = (Inr (Fin 3, (2, 2)), 5) \<and>
   get_legal_moves tree_board two_ply = [(0, 0), (0, 1)] \<and>
   alphabeta tree_board (label_player ''alphabeta'' True) (constant_clock 100) two_ply 1
     NInf PInf False 0 = (Inr (Fin 1, (-1, -1)), 3) \<and>
   alphabeta tree_board (label_player ''alphabeta'' True) (constant_clock 100) two_ply 2
     NInf PInf True 0 = (Inr (Fin 4, (0, 1)), 5) \<and>
   dls tree_board (label_player ''alphabeta'' True) two_ply 2 False = Inr (Fin 3, (0, 0))"
  by (simp add: alphabeta.simps(1) dls.simps(1) constant_clock_def label_player_def
      tree_board_def two_ply_def no_move_def)

section \<open>Polling the clock\<close>

text \<open>Every call of \<open>alphabeta\<close> polls at least once; a loop never sets the count back.\<close>

lemma ab_max_loop_clock:
  assumes "\<And>g a c. c < snd (alphabeta B P t g d a b False c)"
  shows "c \<le> snd (ab_max_loop B P t g d ms a b bv bm c) \<and>
     (ms \<noteq> [] \<longrightarrow> c < snd (ab_max_loop B P t g d ms a b bv bm c))"
proof (induction ms arbitrary: a bv bm c)
  case Nil
  show ?case by simp
next
  case (Cons child rest)
  obtain r c2 where ch: "alphabeta B P t (forecast_move B g child) d a b False c = (r, c2)"
    by fastforce
  have lt: "c < c2"
    using assms [of c "forecast_move B g child" a] ch by simp
  have "c < snd (ab_max_loop B P t g d rest a' b bv' bm' c2)" for a' bv' bm'
    using lt Cons.IH [of c2 a' bv' bm'] by simp
  then show ?case
    using lt by (auto simp: ch Let_def less_imp_le split: sum.splits prod.splits)
qed

lemma ab_min_loop_clock:
  assumes "\<And>g b c. c < snd (alphabeta B P t g d a b True c)"
  shows "c \<le> snd (ab_min_loop B P t g d ms a b bv bm c) \<and>
     (ms \<noteq> [] \<longrightarrow> c < snd (ab_min_loop B P t g d ms a b bv bm c))"
proof (induction ms arbitrary: b bv bm c)
  case Nil
  show ?case by simp
next
  case (Cons child rest)
  obtain r c2 where ch: "alphabeta B P t (forecast_move B g child) d a b True c = (r, c2)"
    by fastforce
  have lt: "c < c2"
    using assms [of c "forecast_move B g child" b] ch by simp
  have "c < snd (ab_min_loop B P t g d rest a b' bv' bm' c2)" for b' bv' bm'
    using lt Cons.IH [of c2 b' bv' bm'] by simp
  then show ?case
    using lt by (auto simp: ch Let_def less_imp_le split: sum.splits prod.splits)
qed

lemma alphabeta_clock: "c < snd (alphabeta B P t g depth a b mp c)"
proof (induction depth arbitrary: g a b mp c)
  case 0
  show ?case
    by (simp add: alphabeta.simps(1) [of _ _ _ _ 0] split: sum.splits)
next
  case (Suc d)
  have mx: "Suc c \<le> snd (ab_max_loop B P t g d ms a b bv bm (Suc c))" for ms bv bm
    using ab_max_loop_clock [of B P t d b "Suc c" g ms a bv bm] Suc.IH by simp
  have mn: "Suc c \<le> snd (ab_min_loop B P t g d ms a b bv bm (Suc c))" for ms bv bm
    using ab_min_loop_clock [of B P t d a "Suc c" g ms b bv bm] Suc.IH by simp
  show ?case
    using mx mn
    by (simp add: alphabeta.simps(1) [of _ _ _ _ "Suc d"] Let_def Suc_le_eq split: sum.splits)
qed

lemma dls_max_loop_no_timeout:
  assumes "\<And>g. dls B P g d False \<noteq> Inl Timeout"
  shows "dls_max_loop B P g d ms bv bm \<noteq> Inl Timeout"
  using assms by (induction ms arbitrary: bv bm) (auto split: sum.splits)

lemma dls_min_loop_no_timeout:
  assumes "\<And>g. dls B P g d True \<noteq> Inl Timeout"
  shows "dls_min_loop B P g d ms bv bm \<noteq> Inl Timeout"
  using assms by (induction ms arbitrary: bv bm) (auto split: sum.splits)

lemma dls_no_timeout:
  assumes "\<And>g. score P g (self P) \<noteq> Inl Timeout"
  shows "dls B P g depth mp \<noteq> Inl Timeout"
proof (induction depth arbitrary: g mp)
  case 0
  show ?case
    using assms [of g] by (auto simp: dls.simps(1) [of _ _ _ 0] split: sum.splits)
next
  case (Suc d)
  show ?case
    using dls_max_loop_no_timeout [of B P d] dls_min_loop_no_timeout [of B P d] Suc.IH
    by (simp add: dls.simps(1) [of _ _ _ "Suc d"] Let_def)
qed

text \<open>
  Claim C3, as the code has it. Provided the evaluation function does not itself raise
  \<open>Timeout\<close>: a call of \<open>alphabeta\<close>, that is every node of its recursion, raises
  \<open>Timeout\<close> after exactly one poll, its first action, if and only if that poll reads
  strictly less than \<open>TIMER_THRESHOLD\<close>; and so does the call of \<open>minimax\<close>.
\<close>

theorem timeout_raised_iff_below_threshold:
  assumes "\<And>g. score P g (self P) \<noteq> Inl Timeout"
  shows "(alphabeta B P time_left game depth alpha beta maximizing_player c = (Inl Timeout, Suc c))
           = (time_left c < TIMER_THRESHOLD P) \<and>
         (minimax B P time_left game depth maximizing_player c = (Inl Timeout, Suc c))
           = (time_left c < TIMER_THRESHOLD P)"
proof
  show "(alphabeta B P time_left game depth alpha beta maximizing_player c = (Inl Timeout, Suc c))
           = (time_left c < TIMER_THRESHOLD P)"
  proof (cases "time_left c < TIMER_THRESHOLD P")
    case True
    then show ?thesis by (simp add: alphabeta.simps(1))
  next
    case False
    have leaf: "score P game (self P) \<noteq> Inl Timeout"
      by (rule assms)
    have mx: "snd (ab_max_loop B P time_left game d ms alpha beta bv bm (Suc c)) \<noteq> Suc c"
      if "ms \<noteq> []" for d ms bv bm
      using ab_max_loop_clock [of B P time_left d beta "Suc c" game ms alpha bv bm] that
        alphabeta_clock [of _ B P time_left _ d _ beta False]
      by simp
    have mn: "snd (ab_min_loop B P time_left game d ms alpha beta bv bm (Suc c)) \<noteq> Suc c"
      if "ms \<noteq> []" for d ms bv bm
      using ab_min_loop_clock [of B P time_left d alpha "Suc c" game ms beta bv bm] that
        alphabeta_clock [of _ B P time_left _ d alpha _ True]
      by simp
    have "alphabeta B P time_left game depth alpha beta maximizing_player c \<noteq> (Inl Timeout, Suc c)"
    proof (cases "depth = 0 \<or> length (get_legal_moves B game) = 0")
      case True
      with False leaf show ?thesis
        by (auto simp: alphabeta.simps(1) [of _ _ _ game] Let_def split: sum.splits)
    next
      case inner: False
      then have "snd (alphabeta B P time_left game depth alpha beta maximizing_player c) \<noteq> Suc c"
        using False mx [of "get_legal_moves B game" "depth - 1" NInf no_move]
          mn [of "get_legal_moves B game" "depth - 1" PInf no_move]
        by (simp add: alphabeta.simps(1) [of _ _ _ game] Let_def)
      then show ?thesis by auto
    qed
    with False show ?thesis by simp
  qed
  show "(minimax B P time_left game depth maximizing_player c = (Inl Timeout, Suc c))
           = (time_left c < TIMER_THRESHOLD P)"
    using dls_no_timeout [of P B game depth maximizing_player] assms
    by (simp add: minimax_def)
qed


theorem timeout_raised_iff_below_threshold_witness:
  "alphabeta tree_board (label_player ''alphabeta'' True) (constant_clock 5) two_ply 2
     NInf PInf True 0 = (Inl Timeout, 1) \<and>
   minimax tree_board (label_player ''alphabeta'' True) (constant_clock 5) two_ply 2 True 0
     = (Inl Timeout, 1) \<and>
   constant_clock 5 0 < TIMER_THRESHOLD (label_player ''alphabeta'' True) \<and>
   alphabeta tree_board (label_player ''alphabeta'' True) (constant_clock 10) two_ply 2
     NInf PInf True 0 \<noteq> (Inl Timeout, 1) \<and>
   minimax tree_board (label_player ''alphabeta'' True) (constant_clock 10) two_ply 2 True 0
     \<noteq> (Inl Timeout, 1) \<and>
   \<not> constant_clock 10 0 < TIMER_THRESHOLD (label_player ''alphabeta'' True)"
proof -
  have s: "score (label_player ''alphabeta'' True) g (self (label_player ''alphabeta'' True))
      \<noteq> Inl Timeout" for g
    by (simp add: label_player_def)
  have lo: "constant_clock 5 0 < TIMER_THRESHOLD (label_player ''alphabeta'' True)"
    and hi: "\<not> constant_clock 10 0 < TIMER_THRESHOLD (label_player ''alphabeta'' True)"
    by (simp_all add: label_player_def constant_clock_def)
  show ?thesis
    using lo hi
      timeout_raised_iff_below_threshold [OF s, of tree_board "constant_clock 5" two_ply 2
        NInf PInf True 0]
      timeout_raised_iff_below_threshold [OF s, of tree_board "constant_clock 10" two_ply 2
        NInf PInf True 0]
    by simp
qed

text \<open>
  Claim C3 as stated fails: with a remaining time of 10 ms, equal to the threshold, at
  every poll, neither search raises \<open>Timeout\<close>. And when the clock reads 100 ms at the
  first poll and 0 ms afterwards, \<open>minimax\<close> at depth 2 still returns its result after that
  single poll.
\<close>

theorem no_timeout_at_threshold:
  "constant_clock 10 0 \<le> TIMER_THRESHOLD (label_player ''alphabeta'' True) \<and>
   alphabeta tree_board (label_player ''alphabeta'' True) (constant_clock 10) two_ply 2
     NInf PInf True 0 = (Inr (Fin 4, (0, 1)), 5) \<and>
   minimax tree_board (label_player ''alphabeta'' True) (constant_clock 10) two_ply 2 True 0
     = (Inr (Fin 4, (0, 1)), 1) \<and>
   clock_readings [100] 1 \<le> TIMER_THRESHOLD (label_player ''alphabeta'' True) \<and>
   minimax tree_board (label_player ''alphabeta'' True) (clock_readings [100]) two_ply 2 True 0
     = (Inr (Fin 4, (0, 1)), 1)"
  by (simp add: alphabeta.simps(1) dls.simps(1) minimax_def constant_clock_def
      clock_readings_def label_player_def tree_board_def two_ply_def no_move_def)

section \<open>Iterative deepening\<close>












section \<open>Alpha-beta against minimax\<close>

subsection \<open>Windows\<close>

lemma window_sound_refl: "window_sound a b v v"
  by (simp add: window_sound_def)

lemma window_sound_full: "window_sound NInf PInf v r \<Longrightarrow> r = v"
  by (cases r) (simp_all add: window_sound_def)

lemma window_soundI:
  assumes "r \<le> a \<Longrightarrow> v \<le> r" and "a < r \<Longrightarrow> r < b \<Longrightarrow> r = v" and "b \<le> r \<Longrightarrow> r \<le> v"
  shows "window_sound a b v r"
  using assms by (simp add: window_sound_def)

lemma window_sound_low: "window_sound a b v r \<Longrightarrow> r \<le> a \<Longrightarrow> v \<le> r"
  by (simp add: window_sound_def)

lemma window_sound_mid: "window_sound a b v r \<Longrightarrow> a < r \<Longrightarrow> r < b \<Longrightarrow> r = v"
  by (simp add: window_sound_def)

lemma window_sound_high: "window_sound a b v r \<Longrightarrow> b \<le> r \<Longrightarrow> r \<le> v"
  by (simp add: window_sound_def)

lemma max_step_break:
  assumes "a < b" and "bv \<le> a" and "window_sound a b vc v" and "b \<le> max a (max bv v)"
  shows "window_sound a b (max (max bv vc) W) (max bv v)"
proof -
  have bv: "b \<le> v"
  proof (rule ccontr)
    assume "\<not> b \<le> v"
    with assms(1,2) have "max a (max bv v) < b" by auto
    with assms(4) show False by (meson not_le)
  qed
  with assms(1,2) have m: "max bv v = v" by (auto simp: max_def)
  from assms(3) bv have "v \<le> vc" by (rule window_sound_high)
  then have up: "v \<le> max (max bv vc) W" by (simp add: le_max_iff_disj)
  show ?thesis
    unfolding m
  proof (rule window_soundI)
    assume "v \<le> a"
    with bv assms(1) show "max (max bv vc) W \<le> v" by simp
  next
    assume "v < b"
    with bv show "v = max (max bv vc) W" by simp
  next
    show "v \<le> max (max bv vc) W" by (rule up)
  qed
qed

lemma max_step_continue:
  assumes "a < b" and "bv \<le> a" and "window_sound a b vc v" and "\<not> b \<le> max a (max bv v)"
    and "window_sound (max a (max bv v)) b (max (max bv v) W) R"
  shows "window_sound a b (max (max bv vc) W) R"
proof (cases "v \<le> a")
  case True
  with assms(2) have m: "max a (max bv v) = a" by (auto simp: max_def)
  from assms(3) True have vc: "vc \<le> v" by (rule window_sound_low)
  with True assms(2) have small: "max bv vc \<le> a" "max bv v \<le> a" by simp_all
  have le: "max (max bv vc) W \<le> max (max bv v) W"
    by (intro max.mono order_refl vc)
  have big: "x \<le> max (max bv vc) W" if "a < x" and "x \<le> max (max bv v) W" for x
  proof -
    from that small(2) have "x \<le> W" by (auto simp: le_max_iff_disj)
    then show ?thesis by (simp add: le_max_iff_disj)
  qed
  note w = assms(5) [unfolded m]
  show ?thesis
  proof (rule window_soundI)
    assume "R \<le> a"
    with w have "max (max bv v) W \<le> R" by (rule window_sound_low)
    with le show "max (max bv vc) W \<le> R" by (rule order_trans)
  next
    assume "a < R" and "R < b"
    with w have eq: "R = max (max bv v) W" by (rule window_sound_mid)
    with \<open>a < R\<close> have "R \<le> max (max bv vc) W" by (intro big) simp_all
    moreover from le eq have "max (max bv vc) W \<le> R" by simp
    ultimately show "R = max (max bv vc) W" by (rule order_antisym)
  next
    assume "b \<le> R"
    with w have "R \<le> max (max bv v) W" by (rule window_sound_high)
    moreover from \<open>b \<le> R\<close> assms(1) have "a < R" by simp
    ultimately show "R \<le> max (max bv vc) W" by (intro big)
  qed
next
  case False
  then have av: "a < v" by simp
  with assms(2) have m: "max bv v = v" "max a v = v" by (auto simp: max_def)
  with assms(4) have vb: "v < b" by simp
  with assms(3) av have "v = vc" by (rule window_sound_mid)
  with m have g: "max (max bv vc) W = max v W" by simp
  note w = assms(5) [unfolded m]
  show ?thesis
    unfolding g
  proof (rule window_soundI)
    assume "R \<le> a"
    with av have "R \<le> v" by simp
    with w show "max v W \<le> R" by (rule window_sound_low)
  next
    assume "a < R" and "R < b"
    show "R = max v W"
    proof (cases "R \<le> v")
      case True
      with w have "max v W \<le> R" by (rule window_sound_low)
      moreover have "R \<le> max v W" using True by (simp add: le_max_iff_disj)
      ultimately show ?thesis by (intro order_antisym)
    next
      case False
      then have "v < R" by simp
      with w \<open>R < b\<close> show ?thesis by (intro window_sound_mid)
    qed
  next
    assume "b \<le> R"
    with w show "R \<le> max v W" by (rule window_sound_high)
  qed
qed

lemma min_step_break:
  assumes "a < b" and "b \<le> bv" and "window_sound a b vc v" and "min b (min bv v) \<le> a"
  shows "window_sound a b (min (min bv vc) W) (min bv v)"
proof -
  have va: "v \<le> a"
  proof (rule ccontr)
    assume "\<not> v \<le> a"
    with assms(1,2) have "a < min b (min bv v)" by auto
    with assms(4) show False by (meson not_le)
  qed
  with assms(1,2) have m: "min bv v = v" by (auto simp: min_def)
  from assms(3) va have "vc \<le> v" by (rule window_sound_low)
  then have down: "min (min bv vc) W \<le> v" by (simp add: min_le_iff_disj)
  show ?thesis
    unfolding m
  proof (rule window_soundI)
    show "min (min bv vc) W \<le> v" by (rule down)
  next
    assume "a < v"
    with va show "v = min (min bv vc) W" by simp
  next
    assume "b \<le> v"
    with va assms(1) show "v \<le> min (min bv vc) W" by simp
  qed
qed

lemma min_step_continue:
  assumes "a < b" and "b \<le> bv" and "window_sound a b vc v" and "\<not> min b (min bv v) \<le> a"
    and "window_sound a (min b (min bv v)) (min (min bv v) W) R"
  shows "window_sound a b (min (min bv vc) W) R"
proof (cases "b \<le> v")
  case True
  with assms(2) have m: "min b (min bv v) = b" by (auto simp: min_def)
  from assms(3) True have vc: "v \<le> vc" by (rule window_sound_high)
  with True assms(2) have large: "b \<le> min bv vc" "b \<le> min bv v" by simp_all
  have le: "min (min bv v) W \<le> min (min bv vc) W"
    by (intro min.mono order_refl vc)
  have little: "min (min bv vc) W \<le> x" if "x < b" and "min (min bv v) W \<le> x" for x
  proof -
    from that large(2) have "W \<le> x" by (auto simp: min_le_iff_disj)
    then show ?thesis by (simp add: min_le_iff_disj)
  qed
  note w = assms(5) [unfolded m]
  show ?thesis
  proof (rule window_soundI)
    assume "R \<le> a"
    with w have "min (min bv v) W \<le> R" by (rule window_sound_low)
    moreover from \<open>R \<le> a\<close> assms(1) have "R < b" by simp
    ultimately show "min (min bv vc) W \<le> R" by (intro little)
  next
    assume "a < R" and "R < b"
    with w have eq: "R = min (min bv v) W" by (rule window_sound_mid)
    with \<open>R < b\<close> have "min (min bv vc) W \<le> R" by (intro little) simp_all
    moreover from le eq have "R \<le> min (min bv vc) W" by simp
    ultimately show "R = min (min bv vc) W" by (intro order_antisym)
  next
    assume "b \<le> R"
    with w have "R \<le> min (min bv v) W" by (rule window_sound_high)
    then show "R \<le> min (min bv vc) W" using le by (rule order_trans)
  qed
next
  case False
  then have vb: "v < b" by simp
  with assms(2) have m: "min bv v = v" "min b v = v" by (auto simp: min_def)
  with assms(4) have av: "a < v" by simp
  with assms(3) vb have "v = vc" by (intro window_sound_mid)
  with m have g: "min (min bv vc) W = min v W" by simp
  note w = assms(5) [unfolded m]
  show ?thesis
    unfolding g
  proof (rule window_soundI)
    assume "R \<le> a"
    with w show "min v W \<le> R" by (rule window_sound_low)
  next
    assume "a < R" and "R < b"
    show "R = min v W"
    proof (cases "v \<le> R")
      case True
      with w have "R \<le> min v W" by (rule window_sound_high)
      moreover have "min v W \<le> R" using True by (simp add: min_le_iff_disj)
      ultimately show ?thesis by (rule order_antisym)
    next
      case False
      then have "R < v" by simp
      with w \<open>a < R\<close> show ?thesis by (intro window_sound_mid)
    qed
  next
    assume "b \<le> R"
    with vb have "v \<le> R" by simp
    with w show "R \<le> min v W" by (rule window_sound_high)
  qed
qed


subsection \<open>The value returned by minimax\<close>

lemma fold_max_acc:
  "fold (\<lambda>child best. max best (f child)) ms bv
     = max bv (fold (\<lambda>child best. max best (f child)) ms NInf)"
proof (induction ms arbitrary: bv)
  case Nil
  show ?case by (simp add: max_def)
next
  case (Cons x ms)
  have n: "max NInf (f x) = f x" by (simp add: max_def)
  show ?case
    using Cons.IH [of "max bv (f x)"] Cons.IH [of "f x"]
    by (simp add: n max.assoc)
qed

lemma fold_min_acc:
  "fold (\<lambda>child best. min best (f child)) ms bv
     = min bv (fold (\<lambda>child best. min best (f child)) ms PInf)"
proof (induction ms arbitrary: bv)
  case Nil
  show ?case by (simp add: min_def)
next
  case (Cons x ms)
  have n: "min PInf (f x) = f x" by (simp add: min_def)
  show ?case
    using Cons.IH [of "min bv (f x)"] Cons.IH [of "f x"]
    by (simp add: n min.assoc)
qed

lemma dls_max_loop_value:
  assumes "\<And>g v m. dls B P g d False = Inr (v, m) \<Longrightarrow> v = minimax_value B P g d False"
  shows "dls_max_loop B P g d ms bv bm = Inr (v, m) \<Longrightarrow>
    v = fold (\<lambda>child best. max best (minimax_value B P (forecast_move B g child) d False)) ms bv"
proof (induction ms arbitrary: bv bm)
  case Nil
  then show ?case by simp
next
  case (Cons child rest)
  from Cons.prems obtain v1 m1 where ch: "dls B P (forecast_move B g child) d False = Inr (v1, m1)"
    by (cases "dls B P (forecast_move B g child) d False") auto
  then have v1: "v1 = minimax_value B P (forecast_move B g child) d False"
    by (rule assms)
  have mx: "max bv v1 = (if bv < v1 then v1 else bv)"
    by (auto simp: max_def)
  from Cons.prems ch
  have "dls_max_loop B P g d rest (max bv v1) (if bv < v1 then child else bm) = Inr (v, m)"
    by (simp add: mx split: if_splits)
  then show ?case
    using Cons.IH v1 by simp
qed

lemma dls_min_loop_value:
  assumes "\<And>g v m. dls B P g d True = Inr (v, m) \<Longrightarrow> v = minimax_value B P g d True"
  shows "dls_min_loop B P g d ms bv bm = Inr (v, m) \<Longrightarrow>
    v = fold (\<lambda>child best. min best (minimax_value B P (forecast_move B g child) d True)) ms bv"
proof (induction ms arbitrary: bv bm)
  case Nil
  then show ?case by simp
next
  case (Cons child rest)
  from Cons.prems obtain v1 m1 where ch: "dls B P (forecast_move B g child) d True = Inr (v1, m1)"
    by (cases "dls B P (forecast_move B g child) d True") auto
  then have v1: "v1 = minimax_value B P (forecast_move B g child) d True"
    by (rule assms)
  have mn: "min bv v1 = (if v1 < bv then v1 else bv)"
    by (auto simp: min_def)
  from Cons.prems ch
  have "dls_min_loop B P g d rest (min bv v1) (if v1 < bv then child else bm) = Inr (v, m)"
    by (simp add: mn split: if_splits)
  then show ?case
    using Cons.IH v1 by simp
qed

lemma dls_value:
  "dls B P g depth mp = Inr (v, m) \<Longrightarrow> v = minimax_value B P g depth mp"
proof (induction depth arbitrary: g mp v m)
  case 0
  then show ?case
    by (auto simp: dls.simps(1) [of _ _ _ 0] score_value_def split: sum.splits)
next
  case (Suc d)
  show ?case
  proof (cases mp)
    case True
    with Suc.prems
    have "dls_max_loop B P g d (get_legal_moves B g) NInf no_move = Inr (v, m)"
      by (simp add: dls.simps(1) [of _ _ _ "Suc d"] Let_def)
    then have "v = fold (\<lambda>child best. max best
        (minimax_value B P (forecast_move B g child) d False)) (get_legal_moves B g) NInf"
      by (rule dls_max_loop_value [rotated]) (rule Suc.IH)
    with True show ?thesis by simp
  next
    case False
    with Suc.prems
    have "dls_min_loop B P g d (get_legal_moves B g) PInf no_move = Inr (v, m)"
      by (simp add: dls.simps(1) [of _ _ _ "Suc d"] Let_def)
    then have "v = fold (\<lambda>child best. min best
        (minimax_value B P (forecast_move B g child) d True)) (get_legal_moves B g) PInf"
      by (rule dls_min_loop_value [rotated]) (rule Suc.IH)
    with False show ?thesis by simp
  qed
qed


subsection \<open>The value returned by alpha-beta\<close>

text \<open>
  Inside a window \<open>a < b\<close> a completed alpha-beta search is sound for the minimax value,
  provided that the dead states it meets are scored as lost for the side to move: there
  \<open>alphabeta\<close> returns the score and \<open>dls\<close> the initial best value.
\<close>

lemma ab_max_loop_sound:
  assumes child_sound: "\<And>g a c v m c1. a < b \<Longrightarrow> dead_scored_lost B P g d False \<Longrightarrow>
      alphabeta B P t g d a b False c = (Inr (v, m), c1) \<Longrightarrow>
      window_sound a b (minimax_value B P g d False) v"
  shows "a < b \<Longrightarrow> bv \<le> a \<Longrightarrow>
    list_all (\<lambda>child. dead_scored_lost B P (forecast_move B g child) d False) ms \<Longrightarrow>
    ab_max_loop B P t g d ms a b bv bm c = (Inr (r, m), c1) \<Longrightarrow>
    window_sound a b
      (fold (\<lambda>child best. max best (minimax_value B P (forecast_move B g child) d False)) ms bv) r"
proof (induction ms arbitrary: a bv bm c)
  case Nil
  then show ?case by (simp add: window_sound_refl)
next
  case (Cons child rest)
  let ?f = "\<lambda>child. minimax_value B P (forecast_move B g child) d False"
  let ?W = "fold (\<lambda>child best. max best (?f child)) rest NInf"
  obtain x c2 where ch: "alphabeta B P t (forecast_move B g child) d a b False c = (x, c2)"
    by fastforce
  from Cons.prems(4) ch obtain v mv where x: "x = Inr (v, mv)"
    by (cases x) auto
  from Cons.prems(3) have dead: "dead_scored_lost B P (forecast_move B g child) d False"
    and dead_rest: "list_all (\<lambda>child. dead_scored_lost B P (forecast_move B g child) d False) rest"
    by simp_all
  have cs: "window_sound a b (?f child) v"
    using Cons.prems(1) dead ch [unfolded x] by (rule child_sound)
  have mx: "(if bv < v then v else bv) = max bv v"
    by (auto simp: max_def)
  have goal: "fold (\<lambda>child best. max best (?f child)) (child # rest) bv
      = max (max bv (?f child)) ?W"
    using fold_max_acc [of ?f rest "max bv (?f child)"] by simp
  show ?case
  proof (cases "b \<le> max a (max bv v)")
    case True
    with Cons.prems(4) ch x have "r = max bv v"
      by (simp add: Let_def mx)
    with max_step_break [OF Cons.prems(1,2) cs True, of ?W] show ?thesis
      unfolding goal by simp
  next
    case False
    with Cons.prems(4) ch x
    have run: "ab_max_loop B P t g d rest (max a (max bv v)) b (max bv v)
        (if bv < v then child else bm) c2 = (Inr (r, m), c1)"
      by (simp add: Let_def mx)
    from False have lt: "max a (max bv v) < b"
      by (simp add: not_le)
    have le: "max bv v \<le> max a (max bv v)"
      by (rule max.cobounded2)
    have "window_sound (max a (max bv v)) b
        (fold (\<lambda>child best. max best (?f child)) rest (max bv v)) r"
      using lt le dead_rest run by (rule Cons.IH)
    then have "window_sound (max a (max bv v)) b (max (max bv v) ?W) r"
      using fold_max_acc [of ?f rest "max bv v"] by simp
    with max_step_continue [OF Cons.prems(1,2) cs False, of ?W r] show ?thesis
      unfolding goal by simp
  qed
qed

lemma ab_min_loop_sound:
  assumes child_sound: "\<And>g b c v m c1. a < b \<Longrightarrow> dead_scored_lost B P g d True \<Longrightarrow>
      alphabeta B P t g d a b True c = (Inr (v, m), c1) \<Longrightarrow>
      window_sound a b (minimax_value B P g d True) v"
  shows "a < b \<Longrightarrow> b \<le> bv \<Longrightarrow>
    list_all (\<lambda>child. dead_scored_lost B P (forecast_move B g child) d True) ms \<Longrightarrow>
    ab_min_loop B P t g d ms a b bv bm c = (Inr (r, m), c1) \<Longrightarrow>
    window_sound a b
      (fold (\<lambda>child best. min best (minimax_value B P (forecast_move B g child) d True)) ms bv) r"
proof (induction ms arbitrary: b bv bm c)
  case Nil
  then show ?case by (simp add: window_sound_refl)
next
  case (Cons child rest)
  let ?f = "\<lambda>child. minimax_value B P (forecast_move B g child) d True"
  let ?W = "fold (\<lambda>child best. min best (?f child)) rest PInf"
  obtain x c2 where ch: "alphabeta B P t (forecast_move B g child) d a b True c = (x, c2)"
    by fastforce
  from Cons.prems(4) ch obtain v mv where x: "x = Inr (v, mv)"
    by (cases x) auto
  from Cons.prems(3) have dead: "dead_scored_lost B P (forecast_move B g child) d True"
    and dead_rest: "list_all (\<lambda>child. dead_scored_lost B P (forecast_move B g child) d True) rest"
    by simp_all
  have cs: "window_sound a b (?f child) v"
    using Cons.prems(1) dead ch [unfolded x] by (rule child_sound)
  have mn: "(if v < bv then v else bv) = min bv v"
    by (auto simp: min_def)
  have goal: "fold (\<lambda>child best. min best (?f child)) (child # rest) bv
      = min (min bv (?f child)) ?W"
    using fold_min_acc [of ?f rest "min bv (?f child)"] by simp
  show ?case
  proof (cases "min b (min bv v) \<le> a")
    case True
    with Cons.prems(4) ch x have "r = min bv v"
      by (simp add: Let_def mn)
    with min_step_break [OF Cons.prems(1,2) cs True, of ?W] show ?thesis
      unfolding goal by simp
  next
    case False
    with Cons.prems(4) ch x
    have run: "ab_min_loop B P t g d rest a (min b (min bv v)) (min bv v)
        (if v < bv then mv else bm) c2 = (Inr (r, m), c1)"
      by (simp add: Let_def mn)
    from False have lt: "a < min b (min bv v)"
      by (simp add: not_le)
    have le: "min b (min bv v) \<le> min bv v"
      by (rule min.cobounded2)
    have "window_sound a (min b (min bv v))
        (fold (\<lambda>child best. min best (?f child)) rest (min bv v)) r"
      using lt le dead_rest run by (rule Cons.IH)
    then have "window_sound a (min b (min bv v)) (min (min bv v) ?W) r"
      using fold_min_acc [of ?f rest "min bv v"] by simp
    with min_step_continue [OF Cons.prems(1,2) cs False, of ?W r] show ?thesis
      unfolding goal by simp
  qed
qed

lemma alphabeta_sound:
  "a < b \<Longrightarrow> dead_scored_lost B P g depth mp \<Longrightarrow>
   alphabeta B P t g depth a b mp c = (Inr (v, m), c1) \<Longrightarrow>
   window_sound a b (minimax_value B P g depth mp) v"
proof (induction depth arbitrary: g a b mp c v m c1)
  case 0
  then have "v = score_value P g"
    by (auto simp: alphabeta.simps(1) [of _ _ _ _ 0] score_value_def split: if_splits sum.splits)
  then show ?case by (simp add: window_sound_refl)
next
  case (Suc d)
  show ?case
  proof (cases "get_legal_moves B g = []")
    case True
    with Suc.prems(2) have "score P g (self P) = Inr (if mp then NInf else PInf)"
      by simp
    with True Suc.prems(3) have "v = (if mp then NInf else PInf)"
      by (auto simp: alphabeta.simps(1) [of _ _ _ _ "Suc d"] split: if_splits)
    with True show ?thesis by (simp add: window_sound_refl)
  next
    case False
    with Suc.prems(2)
    have dead: "list_all (\<lambda>child. dead_scored_lost B P (forecast_move B g child) d (\<not> mp))
        (get_legal_moves B g)"
      by simp
    show ?thesis
    proof (cases mp)
      case True
      with False Suc.prems(3)
      have run: "ab_max_loop B P t g d (get_legal_moves B g) a b NInf no_move (Suc c)
          = (Inr (v, m), c1)"
        by (simp add: alphabeta.simps(1) [of _ _ _ _ "Suc d"] Let_def split: if_splits)
      have "window_sound a b (fold (\<lambda>child best. max best
          (minimax_value B P (forecast_move B g child) d False)) (get_legal_moves B g) NInf) v"
      proof (rule ab_max_loop_sound [OF _ Suc.prems(1) _ _ run])
        show "NInf \<le> a" by simp
        show "list_all (\<lambda>child. dead_scored_lost B P (forecast_move B g child) d False)
            (get_legal_moves B g)"
          using dead True by simp
        show "window_sound a' b (minimax_value B P g' d False) v'"
          if "a' < b" and "dead_scored_lost B P g' d False"
            and "alphabeta B P t g' d a' b False k = (Inr (v', m'), k')"
          for g' a' k v' m' k'
          using that by (rule Suc.IH)
      qed
      with True show ?thesis by simp
    next
      case mn: False
      with False Suc.prems(3)
      have run: "ab_min_loop B P t g d (get_legal_moves B g) a b PInf no_move (Suc c)
          = (Inr (v, m), c1)"
        by (simp add: alphabeta.simps(1) [of _ _ _ _ "Suc d"] Let_def split: if_splits)
      have "window_sound a b (fold (\<lambda>child best. min best
          (minimax_value B P (forecast_move B g child) d True)) (get_legal_moves B g) PInf) v"
      proof (rule ab_min_loop_sound [OF _ Suc.prems(1) _ _ run])
        show "b \<le> PInf" by simp
        show "list_all (\<lambda>child. dead_scored_lost B P (forecast_move B g child) d True)
            (get_legal_moves B g)"
          using dead mn by simp
        show "window_sound a b' (minimax_value B P g' d True) v'"
          if "a < b'" and "dead_scored_lost B P g' d True"
            and "alphabeta B P t g' d a b' True k = (Inr (v', m'), k')"
          for g' b' k v' m' k'
          using that by (rule Suc.IH)
      qed
      with mn show ?thesis by simp
    qed
  qed
qed

text \<open>
  With a clock that never reads below the threshold and an evaluation function that does
  not raise, both searches return a result.
\<close>

lemma ab_max_loop_returns:
  assumes "\<And>g a c. \<exists>r c1. alphabeta B P t g d a b False c = (Inr r, c1)"
  shows "\<exists>r c1. ab_max_loop B P t g d ms a b bv bm c = (Inr r, c1)"
proof (induction ms arbitrary: a bv bm c)
  case Nil
  show ?case by simp
next
  case (Cons child rest)
  obtain v mv c2 where "alphabeta B P t (forecast_move B g child) d a b False c = (Inr (v, mv), c2)"
    using assms [of "forecast_move B g child" a c] by auto
  then show ?case
    using Cons.IH by (simp add: Let_def)
qed

lemma ab_min_loop_returns:
  assumes "\<And>g b c. \<exists>r c1. alphabeta B P t g d a b True c = (Inr r, c1)"
  shows "\<exists>r c1. ab_min_loop B P t g d ms a b bv bm c = (Inr r, c1)"
proof (induction ms arbitrary: b bv bm c)
  case Nil
  show ?case by simp
next
  case (Cons child rest)
  obtain v mv c2 where "alphabeta B P t (forecast_move B g child) d a b True c = (Inr (v, mv), c2)"
    using assms [of "forecast_move B g child" b c] by auto
  then show ?case
    using Cons.IH by (simp add: Let_def)
qed

lemma alphabeta_returns:
  assumes "\<And>k. \<not> t k < TIMER_THRESHOLD P" and "\<And>g. \<exists>s. score P g (self P) = Inr s"
  shows "\<exists>r c1. alphabeta B P t g depth a b mp c = (Inr r, c1)"
proof (induction depth arbitrary: g a b mp c)
  case 0
  obtain s where "score P g (self P) = Inr s"
    using assms(2) by blast
  then show ?case
    by (simp add: alphabeta.simps(1) [of _ _ _ _ 0] assms(1))
next
  case (Suc d)
  obtain s where "score P g (self P) = Inr s"
    using assms(2) by blast
  then show ?case
    using ab_max_loop_returns [of B P t d b g "get_legal_moves B g" a NInf no_move "Suc c"]
      ab_min_loop_returns [of B P t d a g "get_legal_moves B g" b PInf no_move "Suc c"] Suc.IH
    by (simp add: alphabeta.simps(1) [of _ _ _ _ "Suc d"] assms(1) Let_def)
qed

lemma dls_max_loop_returns:
  assumes "\<And>g. \<exists>r. dls B P g d False = Inr r"
  shows "\<exists>r. dls_max_loop B P g d ms bv bm = Inr r"
proof (induction ms arbitrary: bv bm)
  case Nil
  show ?case by simp
next
  case (Cons child rest)
  obtain v mv where "dls B P (forecast_move B g child) d False = Inr (v, mv)"
    using assms [of "forecast_move B g child"] by auto
  then show ?case
    using Cons.IH by simp
qed

lemma dls_min_loop_returns:
  assumes "\<And>g. \<exists>r. dls B P g d True = Inr r"
  shows "\<exists>r. dls_min_loop B P g d ms bv bm = Inr r"
proof (induction ms arbitrary: bv bm)
  case Nil
  show ?case by simp
next
  case (Cons child rest)
  obtain v mv where "dls B P (forecast_move B g child) d True = Inr (v, mv)"
    using assms [of "forecast_move B g child"] by auto
  then show ?case
    using Cons.IH by simp
qed

lemma minimax_returns:
  assumes "\<not> t c < TIMER_THRESHOLD P" and "\<And>g. \<exists>s. score P g (self P) = Inr s"
  shows "\<exists>r. minimax B P t g depth mp c = (Inr r, Suc c)"
proof -
  have "\<exists>r. dls B P g depth mp = Inr r"
  proof (induction depth arbitrary: g mp)
    case 0
    obtain s where "score P g (self P) = Inr s"
      using assms(2) by blast
    then show ?case
      by (simp add: dls.simps(1) [of _ _ _ 0])
  next
    case (Suc d)
    show ?case
      using dls_max_loop_returns [of B P d g "get_legal_moves B g" NInf no_move]
        dls_min_loop_returns [of B P d g "get_legal_moves B g" PInf no_move] Suc.IH
      by (simp add: dls.simps(1) [of _ _ _ "Suc d"] Let_def)
  qed
  with assms(1) show ?thesis
    by (simp add: minimax_def)
qed

text \<open>
  Claim C1, as the code has it. If every state without a legal move that lies fewer than
  \<open>depth\<close> plies below the root is scored minus infinity on a maximizing layer and plus
  infinity on a minimizing layer, then whenever \<open>alphabeta\<close> with \<open>alpha\<close> minus infinity and
  \<open>beta\<close> plus infinity and \<open>minimax\<close>, both maximizing at the root and at the same depth,
  return (no \<open>Timeout\<close>, no exception of the evaluation function), they return the same
  score.
\<close>

theorem alphabeta_score_equals_minimax_score:
  assumes "dead_scored_lost B P game depth True"
    and "alphabeta B P time_left game depth NInf PInf True c = (Inr (va, ma), c1)"
    and "minimax B P time_left' game depth True c' = (Inr (vm, mm), c1')"
  shows "va = vm"
proof -
  have "NInf < PInf" by simp
  then have "window_sound NInf PInf (minimax_value B P game depth True) va"
    using assms(1,2) by (rule alphabeta_sound)
  then have a: "va = minimax_value B P game depth True"
    by (rule window_sound_full)
  from assms(3) have "dls B P game depth True = Inr (vm, mm)"
    by (simp add: minimax_def split: if_splits)
  then have "vm = minimax_value B P game depth True"
    by (rule dls_value)
  with a show ?thesis by simp
qed

theorem alphabeta_score_equals_minimax_score_witness:
  "dead_scored_lost tree_board (label_player ''alphabeta'' True) two_ply 2 True \<and>
   alphabeta tree_board (label_player ''alphabeta'' True) (constant_clock 100) two_ply 2
     NInf PInf True 0 = (Inr (Fin 4, (0, 1)), 5) \<and>
   minimax tree_board (label_player ''alphabeta'' True) (constant_clock 100) two_ply 2 True 0
     = (Inr (Fin 4, (0, 1)), 1)"
proof -
  have d: "dead_scored_lost tree_board (label_player ''alphabeta'' True) two_ply 2 True"
    by (simp add: numeral_2_eq_2 tree_board_def two_ply_def)
  have a: "alphabeta tree_board (label_player ''alphabeta'' True) (constant_clock 100) two_ply 2
     NInf PInf True 0 = (Inr (Fin 4, (0, 1)), 5)"
    by (simp add: alphabeta.simps(1) constant_clock_def label_player_def tree_board_def
        two_ply_def no_move_def)
  have m: "minimax tree_board (label_player ''alphabeta'' True) (constant_clock 100) two_ply 2
     True 0 = (Inr (Fin 4, (0, 1)), 1)"
    by (simp add: minimax_def dls.simps(1) constant_clock_def label_player_def tree_board_def
        two_ply_def no_move_def)
  have "Fin 4 = Fin 4"
    using alphabeta_score_equals_minimax_score [OF d a m] .
  with d a m show ?thesis by simp
qed

text \<open>
  Claim C1 as stated fails when a dead state is scored otherwise. In the first tree the
  root has one move, to a state in which the other side has no move and which the
  evaluation function scores 5: at depth 2 \<open>alphabeta\<close> returns that score, and \<open>minimax\<close>
  returns plus infinity, the initial best value of the minimizing layer. On the second
  board the agent with the default evaluation function has won and its opponent is to move:
  at depth 1 \<open>alphabeta\<close> returns the score plus infinity, and \<open>minimax\<close> minus infinity, the
  initial best value of the maximizing layer.
\<close>

theorem alphabeta_differs_from_minimax_at_dead_end:
  "alphabeta tree_board (label_player ''alphabeta'' True) (constant_clock 100) dead_end 2
     NInf PInf True 0 = (Inr (Fin 5, (0, 0)), 2) \<and>
   minimax tree_board (label_player ''alphabeta'' True) (constant_clock 100) dead_end 2 True 0
     = (Inr (PInf, (0, 0)), 1) \<and>
   get_legal_moves tree_board dead_end = [(0, 0)] \<and>
   alphabeta won_board (default_player won_board False) (constant_clock 100) () 1
     NInf PInf True 0 = (Inr (PInf, (-1, -1)), 1) \<and>
   minimax won_board (default_player won_board False) (constant_clock 100) () 1 True 0
     = (Inr (NInf, (-1, -1)), 1)"
  by (simp add: alphabeta.simps(1) minimax_def dls.simps(1) constant_clock_def label_player_def
      tree_board_def dead_end_def default_player_def custom_score_def won_board_def no_move_def)

end
